theory Spec2Isabelle
  imports Main "HOL-Library.Word"
begin

unbundle bit_operations_syntax

section \<open>TinyNightLight: machine types\<close>

text \<open>
  The firmware runs on an ATtiny13A compiled with avr-gcc: \<open>uint8_t\<close> is an 8-bit word,
  \<open>int16_t\<close> and \<open>int\<close> are 16-bit two's complement words. Arithmetic on them wraps
  around, \<open>>>\<close> on a signed value is an arithmetic shift (\<open>signed_drop_bit\<close>), on an
  unsigned value a logical shift (\<open>drop_bit\<close>).
\<close>

type_synonym u8 = "8 word"
type_synonym i16 = "16 word"

text \<open>The data line is modelled by the sequence of bits put on it, first bit first.\<close>

type_synonym wire = "bool list"

section \<open>Low-level NeoPixel implementation\<close>

text \<open>
  \<open>NEO_sendByte\<close>: the loop \<open>for(bit=8; bit; bit--)\<close> around the assembler block. Each
  pass raises the line, tests bit 7 of the byte (\<open>sbrs byte, 7\<close>: a set bit keeps the
  line high for the long slot, a clear bit lowers it early), and then shifts the byte
  left by adding it to itself. The bit on the wire of one pass is bit 7 of the byte.
\<close>

function NEO_sendBits :: "u8 \<Rightarrow> u8 \<Rightarrow> wire" where
  "NEO_sendBits n byte =
     (if n = 0 then [] else bit byte 7 # NEO_sendBits (n - 1) (byte + byte))"
  by pat_completeness auto
termination
  by (relation "measure (\<lambda>(n, byte). unat n)") (auto simp: measure_unat)

declare NEO_sendBits.simps [simp del]

definition NEO_sendByte :: "u8 \<Rightarrow> wire" where
  "NEO_sendByte byte = NEO_sendBits 8 byte"

text \<open>\<open>NEO_writeColor\<close>: green, red, blue are sent in this order.\<close>

definition NEO_writeColor :: "u8 \<Rightarrow> u8 \<Rightarrow> u8 \<Rightarrow> wire" where
  "NEO_writeColor r g b = NEO_sendByte g @ NEO_sendByte r @ NEO_sendByte b"

text \<open>\<open>sqr\<close>: \<open>result\<close> starts at 0 and \<open>x\<close> is added to it \<open>x\<close> times, in 8 bits.\<close>

function sqr_loop :: "u8 \<Rightarrow> u8 \<Rightarrow> u8 \<Rightarrow> u8" where
  "sqr_loop x i result = (if i = 0 then result else sqr_loop x (i - 1) (result + x))"
  by pat_completeness auto
termination
  by (relation "measure (\<lambda>(x, i, result). unat i)") (auto simp: measure_unat)

declare sqr_loop.simps [simp del]

definition sqr :: "u8 \<Rightarrow> u8" where
  "sqr x = sqr_loop x x 0"

text \<open>
  \<open>NEO_writeHue\<close>. The arguments of the call of \<open>NEO_writeColor\<close> that the switch
  makes are computed by \<open>NEO_hueColor\<close>: \<open>Some (r, g, b)\<close> in the cases 0, 1 and 2,
  \<open>None\<close> in the default case, which calls nothing. \<open>15 - bright\<close> is computed in
  \<open>int\<close> and shifted arithmetically before it is stored back into the 8-bit
  \<open>bright\<close>; for \<open>bright \<le> 15\<close> the shift count is at most 7. (For a larger
  \<open>bright\<close> the count exceeds the width of \<open>int\<close>; the model then shifts everything
  out, as the shift loop of the target does.)
\<close>

definition NEO_hueColor :: "u8 \<Rightarrow> u8 \<Rightarrow> (u8 \<times> u8 \<times> u8) option" where
  "NEO_hueColor hue0 bright0 =
     (let phase = drop_bit 4 hue0;
          hue = hue0 AND 15;
          bright = (ucast (signed_drop_bit 1 (15 - (ucast bright0 :: i16))) :: u8);
          step = drop_bit (unat bright) (sqr hue) + 1;
          nstep = drop_bit (unat bright) (sqr (15 - hue)) + 1
      in if phase = 0 then Some (nstep, step, 0)
         else if phase = 1 then Some (0, nstep, step)
         else if phase = 2 then Some (step, 0, nstep)
         else None)"

definition NEO_writeHue :: "u8 \<Rightarrow> u8 \<Rightarrow> wire" where
  "NEO_writeHue hue bright =
     (case NEO_hueColor hue bright of
        Some (r, g, b) \<Rightarrow> NEO_writeColor r g b
      | None \<Rightarrow> [])"

text \<open>\<open>NEO_writeWhite\<close>: the brightness is squared and sent on all three channels.\<close>

definition NEO_writeWhite :: "u8 \<Rightarrow> wire" where
  "NEO_writeWhite bright0 = (let bright = sqr bright0 in NEO_writeColor bright bright bright)"

section \<open>Pins\<close>

definition PIN_NEO :: nat where "PIN_NEO = 0"
definition PIN_ENABLE :: nat where "PIN_ENABLE = 1"
definition PIN_ENC_SW :: nat where "PIN_ENC_SW = 2"
definition PIN_ENC_A :: nat where "PIN_ENC_A = 3"
definition PIN_ENC_B :: nat where "PIN_ENC_B = 4"

text \<open>\<open>pinRead(x)\<close> is \<open>PINB & (1 << x)\<close>; the input register is a parameter.\<close>

definition pinRead :: "nat \<Rightarrow> u8 \<Rightarrow> u8" where
  "pinRead x PINB = PINB AND push_bit x 1"

text \<open>The C operators \<open>!\<close> and \<open>==\<close>, whose value is 0 or 1.\<close>

definition lnot :: "u8 \<Rightarrow> u8" where
  "lnot v = (if v = 0 then 1 else 0)"

definition c_eq :: "u8 \<Rightarrow> u8 \<Rightarrow> u8" where
  "c_eq x y = (if x = y then 1 else 0)"

section \<open>Rotary encoder\<close>

record encoder =
  ENC_a0 :: u8
  ENC_b0 :: u8
  ENC_ab0 :: u8
  ENC_loop :: u8
  ENC_count :: i16
  ENC_countMin :: i16
  ENC_countMax :: i16
  ENC_countStep :: i16

text \<open>
  \<open>ENC_init\<close>: the edge history is taken from the pins. (The pull-ups and the interrupt
  enable bits it sets are registers outside the encoder record.)
\<close>

definition ENC_init :: "u8 \<Rightarrow> encoder \<Rightarrow> encoder" where
  "ENC_init PINB s =
     (let s1 = s\<lparr>ENC_a0 := lnot (pinRead PIN_ENC_A PINB)\<rparr>;
          s2 = s1\<lparr>ENC_b0 := lnot (pinRead PIN_ENC_B PINB)\<rparr>
      in s2\<lparr>ENC_ab0 := c_eq (ENC_a0 s2) (ENC_b0 s2)\<rparr>)"

definition ENC_set :: "i16 \<Rightarrow> i16 \<Rightarrow> i16 \<Rightarrow> i16 \<Rightarrow> u8 \<Rightarrow> encoder \<Rightarrow> encoder" where
  "ENC_set rmin rmax rstep rvalue rloop s =
     s\<lparr>ENC_countMin := push_bit 1 rmin,
       ENC_countMax := push_bit 1 rmax,
       ENC_countStep := rstep,
       ENC_count := push_bit 1 rvalue,
       ENC_loop := rloop\<rparr>"

definition ENC_get :: "encoder \<Rightarrow> i16" where
  "ENC_get s = signed_drop_bit 1 (ENC_count s)"

text \<open>
  The value of \<open>(a == b) ? -ENC_countStep : ENC_countStep\<close>, which the handler adds to
  the count once or twice.
\<close>

definition ENC_delta :: "u8 \<Rightarrow> u8 \<Rightarrow> encoder \<Rightarrow> i16" where
  "ENC_delta a b s = (if a = b then - ENC_countStep s else ENC_countStep s)"

text \<open>
  The two bound checks that follow the additions, in the order of the source: first
  against the minimum, then against the maximum (signed comparisons).
\<close>

definition ENC_limit :: "encoder \<Rightarrow> encoder" where
  "ENC_limit s =
     (let s1 = (if ENC_count s <s ENC_countMin s
                then s\<lparr>ENC_count := (if ENC_loop s \<noteq> 0 then ENC_countMax s else ENC_countMin s)\<rparr>
                else s)
      in if ENC_countMax s1 <s ENC_count s1
         then s1\<lparr>ENC_count := (if ENC_loop s1 \<noteq> 0 then ENC_countMin s1 else ENC_countMax s1)\<rparr>
         else s1)"

text \<open>The pin change interrupt service routine \<open>ISR(PCINT0_vect)\<close>.\<close>

definition PCINT0 :: "u8 \<Rightarrow> encoder \<Rightarrow> encoder" where
  "PCINT0 PINB s =
     (let a = lnot (pinRead PIN_ENC_A PINB);
          b = lnot (pinRead PIN_ENC_B PINB)
      in if a \<noteq> ENC_a0 s then
           (let s1 = s\<lparr>ENC_a0 := a\<rparr>
            in if b \<noteq> ENC_b0 s1 then
                 (let s2 = s1\<lparr>ENC_b0 := b\<rparr>;
                      s3 = s2\<lparr>ENC_count := ENC_count s2 + ENC_delta a b s2\<rparr>;
                      s4 = (if c_eq a b \<noteq> ENC_ab0 s3
                            then s3\<lparr>ENC_count := ENC_count s3 + ENC_delta a b s3\<rparr>
                            else s3);
                      s5 = ENC_limit s4
                  in s5\<lparr>ENC_ab0 := c_eq a b\<rparr>)
               else s1)
         else s)"

text \<open>
  The pin change interrupt is enabled for the pins A and SW (\<open>pinIntEn\<close> in
  \<open>ENC_init\<close> and in \<open>main\<close>): the handler runs when one of them differs between two
  successive pin states. \<open>ENC_edges\<close> feeds a sequence of pin states to the encoder.
\<close>

definition PCMSK :: u8 where
  "PCMSK = push_bit PIN_ENC_A 1 OR push_bit PIN_ENC_SW 1"

fun ENC_edges :: "u8 \<Rightarrow> u8 list \<Rightarrow> encoder \<Rightarrow> encoder" where
  "ENC_edges prev [] s = s"
| "ENC_edges prev (p # ps) s =
     ENC_edges p ps (if (prev XOR p) AND PCMSK \<noteq> 0 then PCINT0 p s else s)"

section \<open>Main function\<close>

text \<open>
  The local variables of \<open>main\<close>, the encoder, the direction register of port B (the
  MOSFET of the LED supply is on when \<open>PIN_ENABLE\<close> is an output) and the bits sent
  to the pixels so far.
\<close>

record device =
  state :: u8
  hue :: u8
  bright :: u8
  anim :: u8
  counter :: u8
  enc :: encoder
  DDRB :: u8
  line :: wire

text \<open>The loop of state 2 over the 8 pixels; \<open>huey\<close> advances by 6 on the ring of 48.\<close>

fun anim_pixels :: "nat \<Rightarrow> u8 \<Rightarrow> u8 \<Rightarrow> wire" where
  "anim_pixels 0 huey br = []"
| "anim_pixels (Suc i) huey br =
     NEO_writeHue huey br @
     (let h = huey + 6 in anim_pixels i (if 47 < h then h - 48 else h) br)"

text \<open>One pass of the body of \<open>while(pinRead(PIN_ENC_SW))\<close>: the switch over the state.\<close>

definition tick :: "device \<Rightarrow> device" where
  "tick d =
     (if state d = 0 then d
      else if state d = 1 then
        (let d1 = d\<lparr>bright := ucast (ENC_get (enc d))\<rparr>
         in d1\<lparr>line := line d1 @ concat (replicate 8 (NEO_writeWhite (bright d1)))\<rparr>)
      else if state d = 2 then
        (let d1 = d\<lparr>counter := counter d - 1\<rparr>
         in if counter d1 = 0 then
              (let d2 = d1\<lparr>line := line d1 @ anim_pixels 8 (anim d1) (bright d1)\<rparr>;
                   a = anim d2 + 1;
                   d3 = d2\<lparr>anim := (if 47 < a then 0 else a)\<rparr>
               in d3\<lparr>counter := ucast (ENC_get (enc d3))\<rparr>)
            else d1)
      else if state d = 3 then
        (let d1 = d\<lparr>hue := ucast (ENC_get (enc d))\<rparr>
         in d1\<lparr>line := line d1 @ concat (replicate 8 (NEO_writeHue (hue d1) (bright d1)))\<rparr>)
      else d)"

text \<open>
  The code after the button was pressed and released: the state advances and the new
  state is entered. \<open>NEO_on\<close> makes \<open>PIN_ENABLE\<close> an output, \<open>NEO_off\<close> an input.
\<close>

definition NEO_on :: "u8 \<Rightarrow> u8" where
  "NEO_on ddrb = ddrb OR push_bit PIN_ENABLE 1"

definition NEO_off :: "u8 \<Rightarrow> u8" where
  "NEO_off ddrb = ddrb AND NOT (push_bit PIN_ENABLE 1)"

definition press :: "device \<Rightarrow> device" where
  "press d =
     (let st = state d + 1;
          d1 = d\<lparr>state := (if 3 < st then 0 else st)\<rparr>
      in if state d1 = 0 then d1\<lparr>DDRB := NEO_off (DDRB d1)\<rparr>
         else if state d1 = 1 then
           (let d2 = d1\<lparr>DDRB := NEO_on (DDRB d1)\<rparr>
            in d2\<lparr>enc := ENC_set 2 15 1 (ucast (bright d2)) 0 (enc d2)\<rparr>)
         else if state d1 = 3 then d1\<lparr>enc := ENC_set 0 48 1 (ucast (hue d1)) 1 (enc d1)\<rparr>
         else d1)"

text \<open>
  What happens to the device: a pass of the polling loop, a pin change interrupt with
  the pins it samples, or a button press with its release.
\<close>

datatype event = Tick | Edge u8 | Press

fun handle :: "device \<Rightarrow> event \<Rightarrow> device" where
  "handle d Tick = tick d"
| "handle d (Edge p) = d\<lparr>enc := PCINT0 p (enc d)\<rparr>"
| "handle d Press = press d"

definition run :: "device \<Rightarrow> event list \<Rightarrow> device" where
  "run d es = foldl handle d es"

text \<open>
  The device after power-on and \<open>ENC_init\<close>: the globals are zero, the locals of
  \<open>main\<close> have their initialisers, the pins are sampled once.
\<close>

definition power_on :: "u8 \<Rightarrow> device" where
  "power_on PINB =
     \<lparr>state = 0, hue = 0, bright = 5, anim = 0, counter = 8,
      enc = ENC_init PINB
        \<lparr>ENC_a0 = 0, ENC_b0 = 0, ENC_ab0 = 0, ENC_loop = 0,
         ENC_count = 0, ENC_countMin = 0, ENC_countMax = 0, ENC_countStep = 0\<rparr>,
      DDRB = push_bit PIN_NEO 1, line = []\<rparr>"

section \<open>Reference notions\<close>

text \<open>The bits of a byte, most significant bit first.\<close>

definition msb_first :: "u8 \<Rightarrow> wire" where
  "msb_first x = map (bit x) [7, 6, 5, 4, 3, 2, 1, 0]"

text \<open>
  The ramp of the colour wheel as a formula: the shift count \<open>(15 - b) >> 1\<close>, the
  rising value \<open>(sqr (h mod 16) >> shift) + 1\<close> and the falling value
  \<open>(sqr (15 - h mod 16) >> shift) + 1\<close>.
\<close>

definition ramp_shift :: "u8 \<Rightarrow> nat" where
  "ramp_shift b = unat (drop_bit 1 (15 - b))"

definition ramp_step :: "u8 \<Rightarrow> u8 \<Rightarrow> u8" where
  "ramp_step h b = drop_bit (ramp_shift b) (sqr (h mod 16)) + 1"

definition ramp_nstep :: "u8 \<Rightarrow> u8 \<Rightarrow> u8" where
  "ramp_nstep h b = drop_bit (ramp_shift b) (sqr (15 - h mod 16)) + 1"

text \<open>Three successive values of a linear function have equal increments.\<close>

definition linear3 :: "u8 \<Rightarrow> u8 \<Rightarrow> u8 \<Rightarrow> bool" where
  "linear3 x y z = (uint y - uint x = uint z - uint y)"

text \<open>
  A clean rotation of the encoder, as the sequence of pin states after each of its
  edges. At a detent the lines A and B are at the same level. Turning clockwise, A
  changes first and B follows; counter-clockwise, B changes first and A follows. One
  detent is four edges and ends at the pin state it started from.
\<close>

definition flipA :: "u8 \<Rightarrow> u8" where
  "flipA p = p XOR push_bit PIN_ENC_A 1"

definition flipB :: "u8 \<Rightarrow> u8" where
  "flipB p = p XOR push_bit PIN_ENC_B 1"

definition cw_detent :: "u8 \<Rightarrow> u8 list" where
  "cw_detent p = [flipA p, flipB (flipA p), flipB p, p]"

definition ccw_detent :: "u8 \<Rightarrow> u8 list" where
  "ccw_detent p = [flipB p, flipA (flipB p), flipA p, p]"

definition cw_edges :: "nat \<Rightarrow> u8 \<Rightarrow> u8 list" where
  "cw_edges n p = concat (replicate n (cw_detent p))"

definition ccw_edges :: "nat \<Rightarrow> u8 \<Rightarrow> u8 list" where
  "ccw_edges n p = concat (replicate n (ccw_detent p))"

definition at_detent :: "u8 \<Rightarrow> bool" where
  "at_detent p = (bit p PIN_ENC_A = bit p PIN_ENC_B)"

text \<open>
  The edge history of an encoder that rests at a detent with the pins \<open>p\<close>: the stored
  level of A is the level of A, the stored level of B is 0 or 1 and the stored parity
  is the parity of the two stored levels. \<open>ENC_init\<close> at a detent establishes it.
\<close>

definition hist_ok :: "encoder \<Rightarrow> u8 \<Rightarrow> bool" where
  "hist_ok s p =
     (ENC_a0 s = lnot (pinRead PIN_ENC_A p) \<and> (ENC_b0 s = 0 \<or> ENC_b0 s = 1) \<and>
      ENC_ab0 s = c_eq (ENC_a0 s) (ENC_b0 s))"

section \<open>The pixel transmitter\<close>

lemma sendBits_unfold:
  "n \<noteq> 0 \<Longrightarrow> NEO_sendBits n byte = bit byte 7 # NEO_sendBits (n - 1) (byte + byte)"
  by (subst NEO_sendBits.simps) simp

lemma sendBits_0: "NEO_sendBits 0 byte = []"
  by (subst NEO_sendBits.simps) simp

lemma bit7_shifted:
  fixes byte :: u8
  shows "bit (2 * byte) 7 = bit byte 6" "bit (4 * byte) 7 = bit byte 5"
    "bit (8 * byte) 7 = bit byte 4" "bit (16 * byte) 7 = bit byte 3"
    "bit (32 * byte) 7 = bit byte 2" "bit (64 * byte) 7 = bit byte 1"
    "bit (128 * byte) 7 = bit byte 0"
  using bit_push_bit_iff [of 1 byte 7] bit_push_bit_iff [of 2 byte 7]
    bit_push_bit_iff [of 3 byte 7] bit_push_bit_iff [of 4 byte 7]
    bit_push_bit_iff [of 5 byte 7] bit_push_bit_iff [of 6 byte 7]
    bit_push_bit_iff [of 7 byte 7]
  by (simp_all add: push_bit_eq_mult mult.commute)

lemma NEO_sendByte_msb: "NEO_sendByte byte = msb_first byte"
  unfolding NEO_sendByte_def msb_first_def
  by (simp add: sendBits_unfold sendBits_0 bit7_shifted)

lemma NEO_writeColor_msb: "NEO_writeColor r g b = msb_first g @ msb_first r @ msb_first b"
  by (simp add: NEO_writeColor_def NEO_sendByte_msb)

lemma msb_first_0: "msb_first 0 = replicate 8 False"
  by (simp add: msb_first_def numeral_eq_Suc)

lemma msb_first_255: "msb_first 255 = replicate 8 True"
  by (simp add: msb_first_def numeral_eq_Suc)

text \<open>
  Claim C4. For every pixel the three channel bytes go out in the order green, red,
  blue, each byte most significant bit first; 8 pixels \<open>(r = 255, g = 0, b = 0)\<close> give 8
  repetitions of the bytes \<open>0x00\<close>, \<open>0xFF\<close>, \<open>0x00\<close>, that is of 8 low bits, 8 high
  bits and 8 low bits.
\<close>

theorem transmit_order:
  "NEO_writeColor r g b = msb_first g @ msb_first r @ msb_first b \<and>
   concat (map (\<lambda>(r, g, b). NEO_writeColor r g b) (replicate 8 (255, 0, 0))) =
     concat (replicate 8 (msb_first 0 @ msb_first 255 @ msb_first 0)) \<and>
   msb_first 0 = replicate 8 False \<and> msb_first 255 = replicate 8 True"
  by (simp add: NEO_writeColor_msb msb_first_0 msb_first_255)

section \<open>The colour functions\<close>

lemma sqr_loop_eq: "sqr_loop x i r = r + i * x"
proof (induction x i r rule: sqr_loop.induct)
  case (1 x i r)
  show ?case
  proof (cases "i = 0")
    case True
    then show ?thesis by (subst sqr_loop.simps) simp
  next
    case False
    then have "sqr_loop x i r = sqr_loop x (i - 1) (r + x)"
      by (subst sqr_loop.simps) simp
    also from False have "\<dots> = (r + x) + (i - 1) * x" by (rule "1.IH")
    also have "\<dots> = r + i * x" by (simp add: algebra_simps)
    finally show ?thesis .
  qed
qed

lemma sqr_eq: "sqr x = x * x"
  by (simp add: sqr_def sqr_loop_eq)

lemma unat_sqr_bound:
  assumes "x \<le> (15 :: u8)"
  shows "unat x * unat x \<le> 225"
proof -
  from assms have h: "unat x \<le> 15" by (simp add: word_le_nat_alt)
  from mult_le_mono [OF h h] show ?thesis by simp
qed

lemma unat_sqr:
  assumes "x \<le> (15 :: u8)"
  shows "unat (sqr x) = unat x * unat x"
proof -
  from unat_sqr_bound [OF assms] have "unat x * unat x < 2 ^ LENGTH(8)" by simp
  then show ?thesis by (simp add: sqr_eq unat_mult_lem [THEN iffD1])
qed

lemma unat_ramp:
  assumes "x \<le> (15 :: u8)"
  shows "unat (drop_bit k (sqr x) + 1) = unat x * unat x div 2 ^ k + 1"
proof -
  have "unat (drop_bit k (sqr x)) = drop_bit k (unat (sqr x))"
    by (rule unat_drop_bit_eq)
  then have d: "unat (drop_bit k (sqr x)) = unat x * unat x div 2 ^ k"
    by (simp only: unat_sqr [OF assms] drop_bit_eq_div)
  have "unat x * unat x div 2 ^ k \<le> 225"
    by (rule le_trans [OF div_le_dividend unat_sqr_bound [OF assms]])
  then have "unat (drop_bit k (sqr x)) + unat (1 :: u8) < 2 ^ LENGTH(8)"
    unfolding d by simp
  then have "unat (drop_bit k (sqr x) + 1) = unat (drop_bit k (sqr x)) + unat (1 :: u8)"
    by (rule unat_add_lem [THEN iffD1])
  then show ?thesis unfolding d by simp
qed

lemma ramp_nonzero:
  assumes "x \<le> (15 :: u8)"
  shows "drop_bit k (sqr x) + 1 \<noteq> 0"
proof
  assume "drop_bit k (sqr x) + 1 = 0"
  then have "unat (drop_bit k (sqr x) + 1) = 0" by simp
  with unat_ramp [OF assms, of k] show False by simp
qed

lemma ramp_mono:
  assumes "x \<le> y" "y \<le> (15 :: u8)"
  shows "drop_bit k (sqr x) + 1 \<le> drop_bit k (sqr y) + 1"
proof -
  from assms have x: "x \<le> 15" by simp
  from assms have h: "unat x \<le> unat y" by (simp add: word_le_nat_alt)
  from mult_le_mono [OF h h] have "unat x * unat x \<le> unat y * unat y" .
  then have "unat x * unat x div 2 ^ k \<le> unat y * unat y div 2 ^ k" by (rule div_le_mono)
  then show ?thesis
    by (simp add: word_le_nat_alt unat_ramp [OF x] unat_ramp [OF assms(2)])
qed

lemma upt16: "[0..<16] = [0, 1, 2, 3, 4, 5, 6, 7, 8, 9, 10, 11, 12, 13, 14, 15 :: nat]"
  by (simp add: upt_rec)

lemma u8_le_15_all:
  assumes "b \<le> (15 :: u8)"
    and "list_all P [0, 1, 2, 3, 4, 5, 6, 7, 8, 9, 10, 11, 12, 13, 14, 15]"
  shows "P b"
proof -
  from assms(1) have "unat b < 16" by (simp add: word_le_nat_alt)
  then have "unat b \<in> set [0..<16]" by simp
  then have "(word_of_nat (unat b) :: u8) \<in> word_of_nat ` set [0..<16]" by (rule imageI)
  then have "b \<in> set (map word_of_nat [0..<16])" by (simp only: set_map of_nat_unat ucast_id)
  then have "b \<in> set [0, 1, 2, 3, 4, 5, 6, 7, 8, 9, 10, 11, 12, 13, 14, 15]"
    unfolding upt16 by simp
  with assms(2) show ?thesis by (simp only: list_all_iff)
qed

lemma bright_shift:
  assumes "b \<le> (15 :: u8)"
  shows "unat (ucast (signed_drop_bit 1 (15 - (ucast b :: i16))) :: u8) = ramp_shift b"
  unfolding ramp_shift_def by (rule u8_le_15_all [OF assms]) simp

lemma ramp_shift_eq:
  assumes "b \<le> (15 :: u8)"
  shows "ramp_shift b = (15 - unat b) div 2"
  unfolding ramp_shift_def by (rule u8_le_15_all [OF assms]) simp

lemma and_15_mod: "(h :: u8) AND 15 = h mod 16"
proof -
  have "h AND mask 4 = h mod 2 ^ 4" by (simp only: take_bit_eq_mask [symmetric] take_bit_eq_mod)
  then show ?thesis by (simp add: mask_numeral)
qed

lemma mod_16_le: "(h :: u8) mod 16 \<le> 15"
proof -
  have "unat (h mod 16) = unat h mod 16" by (simp add: unat_mod)
  then show ?thesis by (simp add: word_le_nat_alt)
qed

lemma compl_15_le:
  assumes "x \<le> (15 :: u8)"
  shows "15 - x \<le> 15"
  by (rule u8_le_15_all [OF assms]) simp

lemma unat_compl_15:
  assumes "x \<le> (15 :: u8)"
  shows "unat (15 - x) = 15 - unat x"
  by (rule u8_le_15_all [OF assms]) simp

lemma phase_cases:
  assumes "h \<le> (47 :: u8)" "h div 16 \<noteq> 0" "h div 16 \<noteq> 1"
  shows "h div 16 = 2"
proof -
  from assms(1) have "unat h \<le> 47" by (simp add: word_le_nat_alt)
  then have "unat h div 16 \<le> 2" by simp
  moreover from assms(2) have "unat h div 16 \<noteq> 0"
    by (simp add: word_unat_eq_iff unat_div)
  moreover from assms(3) have "unat h div 16 \<noteq> 1"
    by (simp add: word_unat_eq_iff unat_div)
  ultimately have "unat h div 16 = 2" by arith
  then show ?thesis by (simp add: word_unat_eq_iff unat_div)
qed

lemma NEO_hueColor_ramp:
  assumes "b \<le> 15" "h \<le> 47"
  shows "NEO_hueColor h b =
    Some (if h div 16 = 0 then (ramp_nstep h b, ramp_step h b, 0)
          else if h div 16 = 1 then (0, ramp_nstep h b, ramp_step h b)
          else (ramp_step h b, 0, ramp_nstep h b))"
proof -
  have p: "drop_bit 4 h = h div 16" by (simp add: drop_bit_eq_div)
  show ?thesis
    unfolding NEO_hueColor_def Let_def bright_shift [OF assms(1)] and_15_mod p
      ramp_step_def [symmetric] ramp_nstep_def [symmetric]
    using phase_cases [OF assms(2)] by auto
qed

lemma NEO_writeHue_ramp:
  assumes "b \<le> 15" "h \<le> 47"
  shows "NEO_writeHue h b =
    (if h div 16 = 0 then NEO_writeColor (ramp_nstep h b) (ramp_step h b) 0
     else if h div 16 = 1 then NEO_writeColor 0 (ramp_nstep h b) (ramp_step h b)
     else NEO_writeColor (ramp_step h b) 0 (ramp_nstep h b))"
  by (simp add: NEO_writeHue_def NEO_hueColor_ramp [OF assms])

lemma unat_ramp_step:
  assumes "b \<le> 15"
  shows "unat (ramp_step h b) = (unat h mod 16) * (unat h mod 16) div 2 ^ ((15 - unat b) div 2) + 1"
  by (simp add: ramp_step_def unat_ramp [OF mod_16_le] ramp_shift_eq [OF assms] unat_mod)

lemma unat_ramp_nstep:
  assumes "b \<le> 15"
  shows "unat (ramp_nstep h b) =
    (15 - unat h mod 16) * (15 - unat h mod 16) div 2 ^ ((15 - unat b) div 2) + 1"
  by (simp add: ramp_nstep_def unat_ramp [OF compl_15_le [OF mod_16_le]]
      unat_compl_15 [OF mod_16_le] ramp_shift_eq [OF assms] unat_mod)

text \<open>
  Claim C5. For a brightness \<open>b \<le> 15\<close> and a hue \<open>h \<le> 47\<close> the colour written by
  \<open>NEO_writeHue\<close> has the channel selected by the phase \<open>h div 16\<close> at 0 (blue in
  phase 0, red in phase 1, green in phase 2), and the other two channels are
  \<open>ramp_step\<close> and \<open>ramp_nstep\<close>, both greater than 0. Read as numbers, the two
  values are the squares of the index \<open>h mod 16\<close> and of \<open>15 - h mod 16\<close>, divided by
  \<open>2 ^ ((15 - b) div 2)\<close>, plus 1.
\<close>

theorem hue_color_formula:
  assumes "b \<le> 15" and "h \<le> 47"
  shows "NEO_hueColor h b =
      Some (if h div 16 = 0 then (ramp_nstep h b, ramp_step h b, 0)
            else if h div 16 = 1 then (0, ramp_nstep h b, ramp_step h b)
            else (ramp_step h b, 0, ramp_nstep h b)) \<and>
    NEO_writeHue h b =
      (if h div 16 = 0 then NEO_writeColor (ramp_nstep h b) (ramp_step h b) 0
       else if h div 16 = 1 then NEO_writeColor 0 (ramp_nstep h b) (ramp_step h b)
       else NEO_writeColor (ramp_step h b) 0 (ramp_nstep h b)) \<and>
    0 < ramp_step h b \<and> 0 < ramp_nstep h b \<and>
    unat (ramp_step h b) = (unat h mod 16) * (unat h mod 16) div 2 ^ ((15 - unat b) div 2) + 1 \<and>
    unat (ramp_nstep h b) =
      (15 - unat h mod 16) * (15 - unat h mod 16) div 2 ^ ((15 - unat b) div 2) + 1"
proof -
  have "0 < unat (ramp_step h b)" by (simp add: unat_ramp_step [OF assms(1)])
  then have s: "0 < ramp_step h b" by (simp add: word_less_nat_alt)
  have "0 < unat (ramp_nstep h b)" by (simp add: unat_ramp_nstep [OF assms(1)])
  then have n: "0 < ramp_nstep h b" by (simp add: word_less_nat_alt)
  from NEO_hueColor_ramp [OF assms] NEO_writeHue_ramp [OF assms] s n
    unat_ramp_step [OF assms(1)] unat_ramp_nstep [OF assms(1)]
  show ?thesis by (simp only: simp_thms)
qed

lemma same_phase_index:
  assumes "h1 \<le> h2" "h1 div 16 = (h2 div 16 :: u8)"
  shows "h1 mod 16 \<le> h2 mod 16"
proof -
  from assms(1) have le: "unat h1 \<le> unat h2" by (simp add: word_le_nat_alt)
  from assms(2) have "unat (h1 div 16) = unat (h2 div 16)" by simp
  then have d: "unat h1 div 16 = unat h2 div 16" by (simp add: unat_div)
  have "unat h1 = 16 * (unat h1 div 16) + unat h1 mod 16" by simp
  moreover have "unat h2 = 16 * (unat h2 div 16) + unat h2 mod 16" by simp
  ultimately have "unat h1 mod 16 \<le> unat h2 mod 16" using le d by arith
  then show ?thesis by (simp add: word_le_nat_alt unat_mod)
qed

lemma compl_15_anti:
  assumes "x \<le> y" "y \<le> (15 :: u8)"
  shows "15 - y \<le> 15 - x"
proof -
  from assms have x: "x \<le> 15" by simp
  from assms(1) have "unat x \<le> unat y" by (simp add: word_le_nat_alt)
  then show ?thesis by (simp add: word_le_nat_alt unat_compl_15 [OF x] unat_compl_15 [OF assms(2)])
qed

text \<open>
  Claim C6, as the code has it. Within a phase, for a brightness \<open>b \<le> 15\<close>, one
  channel is 0, one channel rises with the hue index and one falls: for two hues
  \<open>h1 \<le> h2\<close> of the same phase \<open>ramp_step\<close> does not decrease and \<open>ramp_nstep\<close>
  does not increase. The two ramps are squares of the index, shifted right and
  incremented, not linear functions of it.
\<close>

theorem hue_ramp_monotone:
  assumes "b \<le> 15" and "h2 \<le> 47" and "h1 \<le> h2" and "h1 div 16 = h2 div 16"
  shows "NEO_hueColor h1 b =
      Some (if h1 div 16 = 0 then (ramp_nstep h1 b, ramp_step h1 b, 0)
            else if h1 div 16 = 1 then (0, ramp_nstep h1 b, ramp_step h1 b)
            else (ramp_step h1 b, 0, ramp_nstep h1 b)) \<and>
    NEO_writeHue h1 b =
      (if h1 div 16 = 0 then NEO_writeColor (ramp_nstep h1 b) (ramp_step h1 b) 0
       else if h1 div 16 = 1 then NEO_writeColor 0 (ramp_nstep h1 b) (ramp_step h1 b)
       else NEO_writeColor (ramp_step h1 b) 0 (ramp_nstep h1 b)) \<and>
    ramp_step h1 b \<le> ramp_step h2 b \<and> ramp_nstep h2 b \<le> ramp_nstep h1 b \<and>
    unat (ramp_step h1 b) = (unat h1 mod 16) * (unat h1 mod 16) div 2 ^ ((15 - unat b) div 2) + 1 \<and>
    unat (ramp_nstep h1 b) =
      (15 - unat h1 mod 16) * (15 - unat h1 mod 16) div 2 ^ ((15 - unat b) div 2) + 1"
proof -
  from assms(2,3) have h1: "h1 \<le> 47" by simp
  have i: "h1 mod 16 \<le> h2 mod 16" by (rule same_phase_index [OF assms(3,4)])
  have up: "ramp_step h1 b \<le> ramp_step h2 b"
    unfolding ramp_step_def by (rule ramp_mono [OF i mod_16_le])
  have down: "ramp_nstep h2 b \<le> ramp_nstep h1 b"
    unfolding ramp_nstep_def
    by (rule ramp_mono [OF compl_15_anti [OF i mod_16_le] compl_15_le [OF mod_16_le]])
  from NEO_hueColor_ramp [OF assms(1) h1] NEO_writeHue_ramp [OF assms(1) h1] up down
    unat_ramp_step [OF assms(1)] unat_ramp_nstep [OF assms(1)]
  show ?thesis by (simp only: simp_thms)
qed

text \<open>
  The ramps are not linear: at full brightness the hues 0, 1, 2 give green 1, 2, 5
  and red 226, 197, 170, with increments 1 and 3, and decrements 29 and 27.
\<close>

theorem hue_ramp_linear_counterexample:
  "NEO_hueColor 0 15 = Some (226, 1, 0) \<and> NEO_hueColor 1 15 = Some (197, 2, 0) \<and>
   NEO_hueColor 2 15 = Some (170, 5, 0) \<and> \<not> linear3 1 2 5 \<and> \<not> linear3 226 197 170"
  by (simp add: NEO_hueColor_def sqr_eq linear3_def)

text \<open>
  Claim C7. For \<open>b \<le> 15\<close>, \<open>NEO_writeWhite\<close> sends the same value on the three
  channels, this value is the square of \<open>b\<close> (no wrap-around in 8 bits), and it does
  not decrease when \<open>b\<close> grows within 0..15.
\<close>

theorem white_gamma:
  assumes "b \<le> 15" and "b' \<le> 15" and "b \<le> b'"
  shows "NEO_writeWhite b = NEO_writeColor (sqr b) (sqr b) (sqr b) \<and>
    NEO_writeWhite b = msb_first (sqr b) @ msb_first (sqr b) @ msb_first (sqr b) \<and>
    unat (sqr b) = unat b * unat b \<and> sqr b \<le> sqr b'"
proof -
  from assms(3) have "unat b \<le> unat b'" by (simp add: word_le_nat_alt)
  then have "unat b * unat b \<le> unat b' * unat b'" by (intro mult_le_mono)
  then have "sqr b \<le> sqr b'"
    by (simp add: word_le_nat_alt unat_sqr [OF assms(1)] unat_sqr [OF assms(2)])
  then show ?thesis
    by (simp add: NEO_writeWhite_def Let_def NEO_writeColor_msb unat_sqr [OF assms(1)])
qed

lemma NEO_hueColor_none:
  assumes "48 \<le> h"
  shows "NEO_hueColor h b = None"
proof -
  from assms have "48 \<le> unat h" by (simp add: word_le_nat_alt)
  then have "3 \<le> unat h div 16" by simp
  then have "3 \<le> unat (drop_bit 4 h)" by (simp add: drop_bit_eq_div unat_div)
  then have "drop_bit 4 h \<noteq> 0 \<and> drop_bit 4 h \<noteq> 1 \<and> drop_bit 4 h \<noteq> 2"
    by auto
  then show ?thesis by (simp add: NEO_hueColor_def Let_def)
qed

lemma NEO_writeHue_none: "48 \<le> h \<Longrightarrow> NEO_writeHue h b = []"
  by (simp add: NEO_writeHue_def NEO_hueColor_none)


theorem hue_color_formula_witness:
  "(10 :: u8) \<le> 15 \<and> (20 :: u8) \<le> 47 \<and> NEO_hueColor 20 10 = Some (0, 31, 5) \<and>
   ramp_step 20 10 = 5 \<and> ramp_nstep 20 10 = 31"
  using hue_color_formula [of 10 20]
  by (simp add: ramp_step_def ramp_nstep_def ramp_shift_def sqr_eq)

theorem hue_ramp_monotone_witness:
  "(15 :: u8) \<le> 15 \<and> (2 :: u8) \<le> 47 \<and> (1 :: u8) \<le> 2 \<and> (1 :: u8) div 16 = 2 div 16 \<and>
   NEO_hueColor 1 15 = Some (197, 2, 0) \<and> ramp_step 1 15 \<le> ramp_step 2 15 \<and>
   ramp_nstep 2 15 \<le> ramp_nstep 1 15"
  using hue_ramp_monotone [of 15 2 1]
  by (simp add: ramp_step_def ramp_nstep_def ramp_shift_def sqr_eq)

theorem white_gamma_witness:
  "(3 :: u8) \<le> 15 \<and> (10 :: u8) \<le> 15 \<and> (3 :: u8) \<le> 10 \<and>
   NEO_writeWhite 3 = NEO_writeColor 9 9 9 \<and> sqr 3 = 9 \<and> sqr 10 = 100 \<and>
   sqr 3 \<le> sqr 10"
  using white_gamma [of 3 10]
  by (simp add: sqr_eq)

section \<open>The rotary encoder\<close>

lemma sample_A: "lnot (pinRead PIN_ENC_A p) = of_bool (\<not> bit p 3)"
proof -
  have "p AND 2 ^ 3 = 0 \<longleftrightarrow> \<not> bit p 3" by (rule and_exp_eq_0_iff_not_bit)
  then show ?thesis by (simp add: lnot_def pinRead_def PIN_ENC_A_def)
qed

lemma sample_B: "lnot (pinRead PIN_ENC_B p) = of_bool (\<not> bit p 4)"
proof -
  have "p AND 2 ^ 4 = 0 \<longleftrightarrow> \<not> bit p 4" by (rule and_exp_eq_0_iff_not_bit)
  then show ?thesis by (simp add: lnot_def pinRead_def PIN_ENC_B_def)
qed

lemma ENC_limit_count:
  "ENC_count (ENC_limit t) =
     (if ENC_count t <s ENC_countMin t
      then (if ENC_loop t \<noteq> 0
            then (if ENC_countMax t <s ENC_countMax t then ENC_countMin t else ENC_countMax t)
            else (if ENC_countMax t <s ENC_countMin t then ENC_countMax t else ENC_countMin t))
      else (if ENC_countMax t <s ENC_count t
            then (if ENC_loop t \<noteq> 0 then ENC_countMin t else ENC_countMax t)
            else ENC_count t))"
  by (simp add: ENC_limit_def Let_def)


lemma ENC_limit_id:
  assumes "\<not> ENC_count t <s ENC_countMin t" "\<not> ENC_countMax t <s ENC_count t"
  shows "ENC_limit t = t"
  using assms by (simp add: ENC_limit_def Let_def)


lemma PCINT0_count:
  "ENC_count (PCINT0 p s) =
    (let a = lnot (pinRead PIN_ENC_A p); b = lnot (pinRead PIN_ENC_B p)
     in if a \<noteq> ENC_a0 s \<and> b \<noteq> ENC_b0 s
        then ENC_count (ENC_limit (s\<lparr>ENC_count :=
               (if c_eq a b \<noteq> ENC_ab0 s
                then ENC_count s + ENC_delta a b s + ENC_delta a b s
                else ENC_count s + ENC_delta a b s)\<rparr>))
        else ENC_count s)"
  by (simp add: PCINT0_def Let_def ENC_delta_def ENC_limit_count)



lemma sint_add16:
  fixes a b lo hi :: i16
  assumes "sint lo \<le> sint a + sint b" "sint a + sint b \<le> sint hi"
  shows "sint (a + b) = sint a + sint b"
proof -
  from sint_ge [of lo] assms(1) have l: "- (2 ^ 15) \<le> sint a + sint b" by simp
  from sint_lt [of hi] assms(2) have h: "sint a + sint b < 2 ^ 15" by simp
  have "sint (a + b) = signed_take_bit 15 (sint a + sint b)"
    by (simp add: sint_word_ariths)
  also from l h have "\<dots> = sint a + sint b" by (rule signed_take_bit_int_eq_self)
  finally show ?thesis .
qed

lemma sint_neg16:
  fixes a :: i16
  assumes "0 < sint a"
  shows "sint (- a) = - sint a"
proof -
  from sint_lt [of a] have "sint a < 2 ^ 15" by simp
  with assms have l: "- (2 ^ 15) \<le> - sint a" and h: "- sint a < 2 ^ 15" by simp_all
  have "sint (- a) = signed_take_bit 15 (- sint a)" by (simp add: sint_word_ariths)
  also from l h have "\<dots> = - sint a" by (rule signed_take_bit_int_eq_self)
  finally show ?thesis .
qed

lemma sint_double:
  fixes r :: i16
  assumes "- 16384 \<le> sint r" "sint r < 16384"
  shows "sint (push_bit 1 r) = 2 * sint r"
proof -
  from assms have l: "- (2 ^ 15) \<le> sint r + sint r" and h: "sint r + sint r < 2 ^ 15"
    by simp_all
  have "push_bit 1 r = r + r" by (simp add: push_bit_eq_mult)
  then have "sint (push_bit 1 r) = signed_take_bit 15 (sint r + sint r)"
    by (simp only: sint_word_ariths) simp
  also from l h have "\<dots> = sint r + sint r" by (rule signed_take_bit_int_eq_self)
  finally show ?thesis by simp
qed

lemma sint_half: "sint (signed_drop_bit 1 (w :: i16)) = sint w div 2"
  by (simp add: sint_signed_drop_bit_eq drop_bit_eq_div)

lemma half_double:
  fixes r :: i16
  assumes "- 16384 \<le> sint r" "sint r < 16384"
  shows "signed_drop_bit 1 (push_bit 1 r) = r"
proof (rule signed_word_eqI)
  show "sint (signed_drop_bit 1 (push_bit 1 r)) = sint r"
    by (simp only: sint_half sint_double [OF assms])
qed

text \<open>
  Claim C1. The handler samples A and B. If both differ from the stored levels, it adds
  to the position \<open>- step\<close> when the new levels are equal and \<open>+ step\<close> otherwise,
  and adds the same value a second time when the parity of the new levels differs
  from the stored parity; if A did not change, or B did not, the position stays as it
  is. (The position so moved then passes the two bound checks of the handler, the
  subject of claim C2; it comes out of them as it went in when it lies within the
  bounds.)
\<close>

theorem edge_handler_delta:
  "(let a = lnot (pinRead PIN_ENC_A p); b = lnot (pinRead PIN_ENC_B p);
        d = (if a = b then - ENC_countStep s else ENC_countStep s);
        moved = (if c_eq a b \<noteq> ENC_ab0 s then ENC_count s + d + d else ENC_count s + d)
    in (a \<noteq> ENC_a0 s \<and> b \<noteq> ENC_b0 s \<longrightarrow>
          ENC_count (PCINT0 p s) = ENC_count (ENC_limit (s\<lparr>ENC_count := moved\<rparr>)) \<and>
          (ENC_countMin s \<le>s moved \<and> moved \<le>s ENC_countMax s \<longrightarrow>
             ENC_count (PCINT0 p s) = moved)) \<and>
       (a = ENC_a0 s \<or> b = ENC_b0 s \<longrightarrow> ENC_count (PCINT0 p s) = ENC_count s))"
  unfolding PCINT0_count Let_def ENC_delta_def ENC_limit_count
  by (auto simp: word_sle_eq word_sless_alt)




lemma bits_flipA: "bit (flipA p) 3 = (\<not> bit p 3)" "bit (flipA p) 4 = bit p 4" "bit (flipA p) 2 = bit p 2"
  by (simp_all add: flipA_def PIN_ENC_A_def bit_xor_iff)

lemma bits_flipB: "bit (flipB p) 3 = bit p 3" "bit (flipB p) 4 = (\<not> bit p 4)" "bit (flipB p) 2 = bit p 2"
  by (simp_all add: flipB_def PIN_ENC_B_def bit_xor_iff)

lemma pin_change_iff:
  "((prev XOR p) AND PCMSK \<noteq> 0) = (bit prev 2 \<noteq> bit p 2 \<or> bit prev 3 \<noteq> bit p 3)"
proof -
  have m: "PCMSK = 2 ^ 3 OR 2 ^ 2"
    by (simp add: PCMSK_def PIN_ENC_A_def PIN_ENC_SW_def)
  have "(prev XOR p) AND PCMSK = ((prev XOR p) AND 2 ^ 3) OR ((prev XOR p) AND 2 ^ 2)"
    unfolding m by (rule bit.conj_disj_distrib)
  then have "((prev XOR p) AND PCMSK = 0) =
      ((prev XOR p) AND 2 ^ 3 = 0 \<and> (prev XOR p) AND 2 ^ 2 = 0)"
    by (simp only: or_eq_0_iff)
  then show ?thesis
    by (simp only: and_exp_eq_0_iff_not_bit bit_xor_iff) blast
qed

lemma ENC_edges_append:
  "ENC_edges prev (xs @ ys) s = ENC_edges (last (prev # xs)) ys (ENC_edges prev xs s)"
  by (induction xs arbitrary: prev s) simp_all

lemma PCINT0_both:
  assumes "lnot (pinRead PIN_ENC_A p) \<noteq> ENC_a0 s" "lnot (pinRead PIN_ENC_B p) \<noteq> ENC_b0 s"
    and "m = (if c_eq (lnot (pinRead PIN_ENC_A p)) (lnot (pinRead PIN_ENC_B p)) \<noteq> ENC_ab0 s
              then ENC_count s + ENC_delta (lnot (pinRead PIN_ENC_A p)) (lnot (pinRead PIN_ENC_B p)) s
                   + ENC_delta (lnot (pinRead PIN_ENC_A p)) (lnot (pinRead PIN_ENC_B p)) s
              else ENC_count s + ENC_delta (lnot (pinRead PIN_ENC_A p)) (lnot (pinRead PIN_ENC_B p)) s)"
    and "sint (ENC_countMin s) \<le> sint m" "sint m \<le> sint (ENC_countMax s)"
  shows "PCINT0 p s =
    s\<lparr>ENC_a0 := lnot (pinRead PIN_ENC_A p), ENC_b0 := lnot (pinRead PIN_ENC_B p),
      ENC_count := m,
      ENC_ab0 := c_eq (lnot (pinRead PIN_ENC_A p)) (lnot (pinRead PIN_ENC_B p))\<rparr>"
proof -
  let ?a = "lnot (pinRead PIN_ENC_A p)" and ?b = "lnot (pinRead PIN_ENC_B p)"
  let ?t = "s\<lparr>ENC_a0 := ?a, ENC_b0 := ?b, ENC_count := m\<rparr>"
  from assms(4,5) have "ENC_limit ?t = ?t"
    by (intro ENC_limit_id) (simp_all add: word_sless_alt)
  with assms(1,2,3) show ?thesis
    by (auto simp add: PCINT0_def Let_def ENC_delta_def)
qed

lemma PCINT0_a_only:
  assumes "lnot (pinRead PIN_ENC_A p) \<noteq> ENC_a0 s" "lnot (pinRead PIN_ENC_B p) = ENC_b0 s"
  shows "PCINT0 p s = s\<lparr>ENC_a0 := lnot (pinRead PIN_ENC_A p)\<rparr>"
  using assms by (simp add: PCINT0_def Let_def)


lemma cw_detent_calls:
  "ENC_edges p (cw_detent p) s = PCINT0 (flipB p) (PCINT0 (flipA p) s)"
  by (simp add: cw_detent_def pin_change_iff bits_flipA bits_flipB)

lemma ccw_detent_calls:
  "ENC_edges p (ccw_detent p) s = PCINT0 p (PCINT0 (flipA (flipB p)) s)"
  by (simp add: ccw_detent_def pin_change_iff bits_flipA bits_flipB)

lemma cw_detent_step:
  assumes det: "at_detent p" and h: "hist_ok s p"
    and pos: "0 < sint (ENC_countStep s)"
    and lo: "sint (ENC_countMin s) \<le> sint (ENC_count s)"
    and hi: "sint (ENC_count s) + 2 * sint (ENC_countStep s) \<le> sint (ENC_countMax s)"
  shows "ENC_edges p (cw_detent p) s =
    s\<lparr>ENC_a0 := of_bool (\<not> bit p 3), ENC_b0 := of_bool (bit p 3),
      ENC_count := ENC_count s + ENC_countStep s + ENC_countStep s, ENC_ab0 := 0\<rparr>"
proof -
  let ?c = "ENC_count s" and ?d = "ENC_countStep s"
  have r1: "sint (?c + ?d) = sint ?c + sint ?d"
    using pos lo hi by (intro sint_add16 [where lo = "ENC_countMin s" and hi = "ENC_countMax s"]) simp_all
  have r2: "sint (?c + ?d + ?d) = sint ?c + sint ?d + sint ?d"
    using pos lo hi r1
    by (intro sint_add16 [where lo = "ENC_countMin s" and hi = "ENC_countMax s", THEN trans]) simp_all
  have e: "2 * ?d + ?c = ?c + ?d + ?d" "?d + ?c = ?c + ?d" by simp_all
  have r3: "sint (2 * ?d + ?c) = sint ?c + sint ?d + sint ?d" "sint (?d + ?c) = sint ?c + sint ?d"
    by (simp_all only: e r1 r2)
  from h have a0: "ENC_a0 s = of_bool (\<not> bit p 3)" by (simp add: hist_ok_def sample_A)
  from h have ab0: "ENC_ab0 s = c_eq (ENC_a0 s) (ENC_b0 s)" by (simp add: hist_ok_def)
  from h have b0: "ENC_b0 s = 0 \<or> ENC_b0 s = 1" by (simp add: hist_ok_def)
  from det have b4: "bit p 4 = bit p 3" by (simp add: at_detent_def PIN_ENC_A_def PIN_ENC_B_def)
  note ev = PCINT0_def Let_def sample_A sample_B bits_flipA bits_flipB b4 a0 ab0 c_eq_def
    ENC_delta_def ENC_limit_def word_sless_alt r1 r2 r3
  from b0 show ?thesis unfolding cw_detent_calls
  proof
    assume z: "ENC_b0 s = 0"
    show "PCINT0 (flipB p) (PCINT0 (flipA p) s) =
      s\<lparr>ENC_a0 := of_bool (\<not> bit p 3), ENC_b0 := of_bool (bit p 3),
        ENC_count := ?c + ?d + ?d, ENC_ab0 := 0\<rparr>"
      using pos lo hi by (cases "bit p 3") (simp_all add: ev z)
  next
    assume z: "ENC_b0 s = 1"
    show "PCINT0 (flipB p) (PCINT0 (flipA p) s) =
      s\<lparr>ENC_a0 := of_bool (\<not> bit p 3), ENC_b0 := of_bool (bit p 3),
        ENC_count := ?c + ?d + ?d, ENC_ab0 := 0\<rparr>"
      using pos lo hi by (cases "bit p 3") (simp_all add: ev z)
  qed
qed


lemma ccw_detent_step:
  assumes det: "at_detent p" and h: "hist_ok s p"
    and pos: "0 < sint (ENC_countStep s)"
    and lo: "sint (ENC_countMin s) \<le> sint (ENC_count s) - 2 * sint (ENC_countStep s)"
    and hi: "sint (ENC_count s) \<le> sint (ENC_countMax s)"
  shows "ENC_edges p (ccw_detent p) s =
    s\<lparr>ENC_a0 := of_bool (\<not> bit p 3), ENC_b0 := of_bool (\<not> bit p 3),
      ENC_count := ENC_count s - ENC_countStep s - ENC_countStep s, ENC_ab0 := 1\<rparr>"
proof -
  let ?c = "ENC_count s" and ?d = "ENC_countStep s"
  have n: "sint (- ?d) = - sint ?d" by (rule sint_neg16 [OF pos])
  have "sint (?c + - ?d) = sint ?c + sint (- ?d)"
    using pos lo hi n by (intro sint_add16 [where lo = "ENC_countMin s" and hi = "ENC_countMax s"]) simp_all
  then have r1: "sint (?c - ?d) = sint ?c - sint ?d" by (simp add: n)
  have "sint ((?c - ?d) + - ?d) = sint (?c - ?d) + sint (- ?d)"
    using pos lo hi n r1
    by (intro sint_add16 [where lo = "ENC_countMin s" and hi = "ENC_countMax s"]) simp_all
  then have r2: "sint (?c - ?d - ?d) = sint ?c - sint ?d - sint ?d" by (simp add: n r1)
  have e: "?c - 2 * ?d = ?c - ?d - ?d" by simp
  have r3: "sint (?c - 2 * ?d) = sint ?c - sint ?d - sint ?d"
    by (simp only: e r2)
  from h have a0: "ENC_a0 s = of_bool (\<not> bit p 3)" by (simp add: hist_ok_def sample_A)
  from h have ab0: "ENC_ab0 s = c_eq (ENC_a0 s) (ENC_b0 s)" by (simp add: hist_ok_def)
  from h have b0: "ENC_b0 s = 0 \<or> ENC_b0 s = 1" by (simp add: hist_ok_def)
  from det have b4: "bit p 4 = bit p 3" by (simp add: at_detent_def PIN_ENC_A_def PIN_ENC_B_def)
  note ev = PCINT0_def Let_def sample_A sample_B bits_flipA bits_flipB b4 a0 ab0 c_eq_def
    ENC_delta_def ENC_limit_def word_sless_alt r1 r2 r3
  from b0 show ?thesis unfolding ccw_detent_calls
  proof
    assume z: "ENC_b0 s = 0"
    show "PCINT0 p (PCINT0 (flipA (flipB p)) s) =
      s\<lparr>ENC_a0 := of_bool (\<not> bit p 3), ENC_b0 := of_bool (\<not> bit p 3),
        ENC_count := ?c - ?d - ?d, ENC_ab0 := 1\<rparr>"
      using pos lo hi by (cases "bit p 3") (simp_all add: ev z)
  next
    assume z: "ENC_b0 s = 1"
    show "PCINT0 p (PCINT0 (flipA (flipB p)) s) =
      s\<lparr>ENC_a0 := of_bool (\<not> bit p 3), ENC_b0 := of_bool (\<not> bit p 3),
        ENC_count := ?c - ?d - ?d, ENC_ab0 := 1\<rparr>"
      using pos lo hi by (cases "bit p 3") (simp_all add: ev z)
  qed
qed


lemma hist_ok_init: "hist_ok (ENC_set rmin rmax rstep rvalue rloop (ENC_init p s)) p"
  by (simp add: hist_ok_def ENC_set_def ENC_init_def Let_def lnot_def)

lemma cw_detent_effect:
  assumes det: "at_detent p" and h: "hist_ok s p"
    and pos: "0 < sint (ENC_countStep s)"
    and lo: "sint (ENC_countMin s) \<le> sint (ENC_count s)"
    and hi: "sint (ENC_count s) + 2 * sint (ENC_countStep s) \<le> sint (ENC_countMax s)"
  shows "hist_ok (ENC_edges p (cw_detent p) s) p"
    and "sint (ENC_count (ENC_edges p (cw_detent p) s)) =
      sint (ENC_count s) + 2 * sint (ENC_countStep s)"
    and "ENC_countMin (ENC_edges p (cw_detent p) s) = ENC_countMin s"
    and "ENC_countMax (ENC_edges p (cw_detent p) s) = ENC_countMax s"
    and "ENC_countStep (ENC_edges p (cw_detent p) s) = ENC_countStep s"
proof -
  let ?c = "ENC_count s" and ?d = "ENC_countStep s"
  note st = cw_detent_step [OF assms]
  have r1: "sint (?c + ?d) = sint ?c + sint ?d"
    using pos lo hi by (intro sint_add16 [where lo = "ENC_countMin s" and hi = "ENC_countMax s"]) simp_all
  have r2: "sint (?c + ?d + ?d) = sint (?c + ?d) + sint ?d"
    using pos lo hi r1
    by (intro sint_add16 [where lo = "ENC_countMin s" and hi = "ENC_countMax s"]) simp_all
  show "hist_ok (ENC_edges p (cw_detent p) s) p"
    unfolding st by (simp add: hist_ok_def sample_A c_eq_def)
  show "sint (ENC_count (ENC_edges p (cw_detent p) s)) = sint ?c + 2 * sint ?d"
    unfolding st using r1 r2 by simp
  show "ENC_countMin (ENC_edges p (cw_detent p) s) = ENC_countMin s"
    "ENC_countMax (ENC_edges p (cw_detent p) s) = ENC_countMax s"
    "ENC_countStep (ENC_edges p (cw_detent p) s) = ENC_countStep s"
    unfolding st by simp_all
qed

lemma ccw_detent_effect:
  assumes det: "at_detent p" and h: "hist_ok s p"
    and pos: "0 < sint (ENC_countStep s)"
    and lo: "sint (ENC_countMin s) \<le> sint (ENC_count s) - 2 * sint (ENC_countStep s)"
    and hi: "sint (ENC_count s) \<le> sint (ENC_countMax s)"
  shows "hist_ok (ENC_edges p (ccw_detent p) s) p"
    and "sint (ENC_count (ENC_edges p (ccw_detent p) s)) =
      sint (ENC_count s) - 2 * sint (ENC_countStep s)"
    and "ENC_countMin (ENC_edges p (ccw_detent p) s) = ENC_countMin s"
    and "ENC_countMax (ENC_edges p (ccw_detent p) s) = ENC_countMax s"
    and "ENC_countStep (ENC_edges p (ccw_detent p) s) = ENC_countStep s"
proof -
  let ?c = "ENC_count s" and ?d = "ENC_countStep s"
  note st = ccw_detent_step [OF assms]
  have n: "sint (- ?d) = - sint ?d" by (rule sint_neg16 [OF pos])
  have "sint (?c + - ?d) = sint ?c + sint (- ?d)"
    using pos lo hi n by (intro sint_add16 [where lo = "ENC_countMin s" and hi = "ENC_countMax s"]) simp_all
  then have r1: "sint (?c - ?d) = sint ?c - sint ?d" by (simp add: n)
  have "sint ((?c - ?d) + - ?d) = sint (?c - ?d) + sint (- ?d)"
    using pos lo hi n r1
    by (intro sint_add16 [where lo = "ENC_countMin s" and hi = "ENC_countMax s"]) simp_all
  then have r2: "sint (?c - ?d - ?d) = sint ?c - sint ?d - sint ?d" by (simp add: n r1)
  show "hist_ok (ENC_edges p (ccw_detent p) s) p"
    unfolding st by (simp add: hist_ok_def sample_A c_eq_def)
  show "sint (ENC_count (ENC_edges p (ccw_detent p) s)) = sint ?c - 2 * sint ?d"
    unfolding st using r2 by simp
  show "ENC_countMin (ENC_edges p (ccw_detent p) s) = ENC_countMin s"
    "ENC_countMax (ENC_edges p (ccw_detent p) s) = ENC_countMax s"
    "ENC_countStep (ENC_edges p (ccw_detent p) s) = ENC_countStep s"
    unfolding st by simp_all
qed

lemma cw_run:
  assumes det: "at_detent p"
  shows "hist_ok s p \<Longrightarrow> 0 < sint (ENC_countStep s) \<Longrightarrow>
    sint (ENC_countMin s) \<le> sint (ENC_count s) \<Longrightarrow>
    sint (ENC_count s) + 2 * int n * sint (ENC_countStep s) \<le> sint (ENC_countMax s) \<Longrightarrow>
    sint (ENC_count (ENC_edges p (cw_edges n p) s)) =
      sint (ENC_count s) + 2 * int n * sint (ENC_countStep s)"
proof (induction n arbitrary: s)
  case 0
  then show ?case by (simp add: cw_edges_def)
next
  case (Suc n)
  let ?d = "sint (ENC_countStep s)"
  let ?s1 = "ENC_edges p (cw_detent p) s"
  from Suc.prems(2) have "0 \<le> int n * ?d" by simp
  with Suc.prems(4) have hi1: "sint (ENC_count s) + 2 * ?d \<le> sint (ENC_countMax s)"
    by (simp add: algebra_simps)
  note eff = cw_detent_effect [OF det Suc.prems(1,2,3) hi1]
  have split: "ENC_edges p (cw_edges (Suc n) p) s = ENC_edges p (cw_edges n p) ?s1"
    by (simp add: cw_edges_def ENC_edges_append) (simp add: cw_detent_def)
  have "sint (ENC_count (ENC_edges p (cw_edges n p) ?s1)) =
      sint (ENC_count ?s1) + 2 * int n * sint (ENC_countStep ?s1)"
    using Suc.prems eff by (intro Suc.IH) (simp_all add: algebra_simps)
  then show ?case unfolding split using eff by (simp add: algebra_simps)
qed

lemma ccw_run:
  assumes det: "at_detent p"
  shows "hist_ok s p \<Longrightarrow> 0 < sint (ENC_countStep s) \<Longrightarrow>
    sint (ENC_countMin s) \<le> sint (ENC_count s) - 2 * int n * sint (ENC_countStep s) \<Longrightarrow>
    sint (ENC_count s) \<le> sint (ENC_countMax s) \<Longrightarrow>
    sint (ENC_count (ENC_edges p (ccw_edges n p) s)) =
      sint (ENC_count s) - 2 * int n * sint (ENC_countStep s)"
proof (induction n arbitrary: s)
  case 0
  then show ?case by (simp add: ccw_edges_def)
next
  case (Suc n)
  let ?d = "sint (ENC_countStep s)"
  let ?s1 = "ENC_edges p (ccw_detent p) s"
  from Suc.prems(2) have "0 \<le> int n * ?d" by simp
  with Suc.prems(3) have lo1: "sint (ENC_countMin s) \<le> sint (ENC_count s) - 2 * ?d"
    by (simp add: algebra_simps)
  note eff = ccw_detent_effect [OF det Suc.prems(1,2) lo1 Suc.prems(4)]
  have split: "ENC_edges p (ccw_edges (Suc n) p) s = ENC_edges p (ccw_edges n p) ?s1"
    by (simp add: ccw_edges_def ENC_edges_append) (simp add: ccw_detent_def)
  have "sint (ENC_count (ENC_edges p (ccw_edges n p) ?s1)) =
      sint (ENC_count ?s1) - 2 * int n * sint (ENC_countStep ?s1)"
    using Suc.prems eff by (intro Suc.IH) (simp_all add: algebra_simps)
  then show ?case unfolding split using eff by (simp add: algebra_simps)
qed

text \<open>
  Claim C3, as the code has it. From a detent, with a positive step and an edge history
  in which the stored level of A is the level of A and the stored parity is the parity
  of the stored levels (\<open>hist_ok\<close>: what \<open>ENC_init\<close> and whole clean detents leave),
  the \<open>4 * n\<close> edges of \<open>n\<close> clockwise detents (the handler runs on the edges of A
  only) raise \<open>ENC_get\<close> by \<open>n * step\<close>, provided the position stays within the
  bounds; the \<open>4 * n\<close> edges of \<open>n\<close> counter-clockwise detents lower it by
  \<open>n * step\<close>.
\<close>

theorem quadrature_rotation:
  assumes "at_detent p" and "hist_ok s p" and "0 <s ENC_countStep s"
  shows
    "length (cw_edges n p) = 4 * n \<and> length (ccw_edges n p) = 4 * n \<and>
     (sint (ENC_countMin s) \<le> sint (ENC_count s) \<and>
      sint (ENC_count s) + 2 * int n * sint (ENC_countStep s) \<le> sint (ENC_countMax s) \<longrightarrow>
      sint (ENC_get (ENC_edges p (cw_edges n p) s)) =
        sint (ENC_get s) + int n * sint (ENC_countStep s)) \<and>
     (sint (ENC_countMin s) \<le> sint (ENC_count s) - 2 * int n * sint (ENC_countStep s) \<and>
      sint (ENC_count s) \<le> sint (ENC_countMax s) \<longrightarrow>
      sint (ENC_get (ENC_edges p (ccw_edges n p) s)) =
        sint (ENC_get s) - int n * sint (ENC_countStep s))"
proof -
  from assms(3) have pos: "0 < sint (ENC_countStep s)" by (simp add: word_sless_alt)
  have len: "length (cw_edges n p) = 4 * n" "length (ccw_edges n p) = 4 * n"
    by (simp_all add: cw_edges_def ccw_edges_def cw_detent_def ccw_detent_def
        length_concat sum_list_replicate)
  have get: "sint (ENC_get t) = sint (ENC_count t) div 2" for t
    by (simp only: ENC_get_def sint_half)
  have cw: "sint (ENC_get (ENC_edges p (cw_edges n p) s)) =
      sint (ENC_get s) + int n * sint (ENC_countStep s)"
    if "sint (ENC_countMin s) \<le> sint (ENC_count s)"
      "sint (ENC_count s) + 2 * int n * sint (ENC_countStep s) \<le> sint (ENC_countMax s)"
    unfolding get cw_run [OF assms(1,2) pos that] by simp
  have ccw: "sint (ENC_get (ENC_edges p (ccw_edges n p) s)) =
      sint (ENC_get s) - int n * sint (ENC_countStep s)"
    if "sint (ENC_countMin s) \<le> sint (ENC_count s) - 2 * int n * sint (ENC_countStep s)"
      "sint (ENC_count s) \<le> sint (ENC_countMax s)"
    unfolding get ccw_run [OF assms(1,2) pos that] by simp
  from len cw ccw show ?thesis by blast
qed

text \<open>
  \<open>ENC_set\<close> leaves the edge history as it is. After one clockwise detent and a half
  turn of A there and back, all before the first button press, the stored parity
  disagrees with the stored levels; the press then sets the position to its initial
  value 5, and one clean clockwise detent leaves \<open>ENC_get\<close> at 5, one clean
  counter-clockwise detent takes it to 3.
\<close>

theorem quadrature_history_counterexample:
  "at_detent 28 \<and>
   enc (run (power_on 28) [Edge 20, Edge 12, Edge 20, Edge 28, Press]) =
     \<lparr>ENC_a0 = 0, ENC_b0 = 0, ENC_ab0 = 0, ENC_loop = 0, ENC_count = 10,
      ENC_countMin = 4, ENC_countMax = 30, ENC_countStep = 1\<rparr> \<and>
   ENC_get (enc (run (power_on 28) [Edge 20, Edge 12, Edge 20, Edge 28, Press])) = 5 \<and>
   ENC_get (ENC_edges 28 (cw_edges 1 28)
     (enc (run (power_on 28) [Edge 20, Edge 12, Edge 20, Edge 28, Press]))) = 5 \<and>
   ENC_get (ENC_edges 28 (ccw_edges 1 28)
     (enc (run (power_on 28) [Edge 20, Edge 12, Edge 20, Edge 28, Press]))) = 3"
proof -
  let ?s = "enc (run (power_on 28) [Edge 20, Edge 12, Edge 20, Edge 28, Press])"
  have s: "?s = \<lparr>ENC_a0 = 0, ENC_b0 = 0, ENC_ab0 = 0, ENC_loop = 0, ENC_count = 10,
      ENC_countMin = 4, ENC_countMax = 30, ENC_countStep = 1\<rparr>"
    by (simp add: run_def power_on_def press_def Let_def ENC_init_def ENC_set_def NEO_on_def
        PCINT0_def ENC_delta_def ENC_limit_def lnot_def pinRead_def c_eq_def
        PIN_ENC_A_def PIN_ENC_B_def PIN_ENABLE_def PIN_NEO_def word_sless_alt)
  have d: "at_detent 28" by (simp add: at_detent_def PIN_ENC_A_def PIN_ENC_B_def)
  have g: "ENC_get ?s = 5" unfolding s by (simp add: ENC_get_def)
  have cw: "ENC_get (ENC_edges 28 (cw_edges 1 28) ?s) = 5"
    unfolding s cw_detent_calls cw_edges_def
    by (simp add: cw_detent_calls flipA_def flipB_def PCINT0_def Let_def ENC_delta_def
        ENC_limit_def ENC_get_def lnot_def pinRead_def c_eq_def PIN_ENC_A_def PIN_ENC_B_def
        word_sless_alt)
  have ccw: "ENC_get (ENC_edges 28 (ccw_edges 1 28) ?s) = 3"
    unfolding s ccw_edges_def
    by (simp add: ccw_detent_calls flipA_def flipB_def PCINT0_def Let_def ENC_delta_def
        ENC_limit_def ENC_get_def lnot_def pinRead_def c_eq_def PIN_ENC_A_def PIN_ENC_B_def
        word_sless_alt)
  from d s g cw ccw show ?thesis by (simp only: simp_thms)
qed


theorem edge_handler_delta_witness:
  "ENC_count (PCINT0 16 \<lparr>ENC_a0 = 0, ENC_b0 = 1, ENC_ab0 = 1, ENC_loop = 0, ENC_count = 10,
      ENC_countMin = 4, ENC_countMax = 30, ENC_countStep = 1\<rparr>) = 12 \<and>
   ENC_count (PCINT0 16 \<lparr>ENC_a0 = 0, ENC_b0 = 1, ENC_ab0 = 0, ENC_loop = 0, ENC_count = 10,
      ENC_countMin = 4, ENC_countMax = 30, ENC_countStep = 1\<rparr>) = 11 \<and>
   ENC_count (PCINT0 0 \<lparr>ENC_a0 = 0, ENC_b0 = 0, ENC_ab0 = 1, ENC_loop = 0, ENC_count = 10,
      ENC_countMin = 4, ENC_countMax = 30, ENC_countStep = 1\<rparr>) = 9 \<and>
   ENC_count (PCINT0 16 \<lparr>ENC_a0 = 0, ENC_b0 = 0, ENC_ab0 = 1, ENC_loop = 0, ENC_count = 10,
      ENC_countMin = 4, ENC_countMax = 30, ENC_countStep = 1\<rparr>) = 10 \<and>
   ENC_count (PCINT0 24 \<lparr>ENC_a0 = 0, ENC_b0 = 1, ENC_ab0 = 1, ENC_loop = 0, ENC_count = 10,
      ENC_countMin = 4, ENC_countMax = 30, ENC_countStep = 1\<rparr>) = 10"
  using
    edge_handler_delta [of 16 "\<lparr>ENC_a0 = 0, ENC_b0 = 1, ENC_ab0 = 1, ENC_loop = 0, ENC_count = 10,
      ENC_countMin = 4, ENC_countMax = 30, ENC_countStep = 1\<rparr>"]
    edge_handler_delta [of 16 "\<lparr>ENC_a0 = 0, ENC_b0 = 1, ENC_ab0 = 0, ENC_loop = 0, ENC_count = 10,
      ENC_countMin = 4, ENC_countMax = 30, ENC_countStep = 1\<rparr>"]
    edge_handler_delta [of 0 "\<lparr>ENC_a0 = 0, ENC_b0 = 0, ENC_ab0 = 1, ENC_loop = 0, ENC_count = 10,
      ENC_countMin = 4, ENC_countMax = 30, ENC_countStep = 1\<rparr>"]
    edge_handler_delta [of 16 "\<lparr>ENC_a0 = 0, ENC_b0 = 0, ENC_ab0 = 1, ENC_loop = 0, ENC_count = 10,
      ENC_countMin = 4, ENC_countMax = 30, ENC_countStep = 1\<rparr>"]
    edge_handler_delta [of 24 "\<lparr>ENC_a0 = 0, ENC_b0 = 1, ENC_ab0 = 1, ENC_loop = 0, ENC_count = 10,
      ENC_countMin = 4, ENC_countMax = 30, ENC_countStep = 1\<rparr>"]
  by (simp add: Let_def lnot_def pinRead_def PIN_ENC_A_def PIN_ENC_B_def c_eq_def word_sle_eq
      ENC_limit_def word_sless_alt)


theorem quadrature_rotation_witness:
  "at_detent 28 \<and>
   hist_ok \<lparr>ENC_a0 = 0, ENC_b0 = 0, ENC_ab0 = 1, ENC_loop = 0, ENC_count = 10,
      ENC_countMin = 4, ENC_countMax = 30, ENC_countStep = 1\<rparr> 28 \<and>
   length (cw_edges 2 28) = 8 \<and>
   sint (ENC_get (ENC_edges 28 (cw_edges 2 28) \<lparr>ENC_a0 = 0, ENC_b0 = 0, ENC_ab0 = 1,
      ENC_loop = 0, ENC_count = 10, ENC_countMin = 4, ENC_countMax = 30, ENC_countStep = 1\<rparr>)) = 7 \<and>
   sint (ENC_get (ENC_edges 28 (ccw_edges 2 28) \<lparr>ENC_a0 = 0, ENC_b0 = 0, ENC_ab0 = 1,
      ENC_loop = 0, ENC_count = 10, ENC_countMin = 4, ENC_countMax = 30, ENC_countStep = 1\<rparr>)) = 3"
  using quadrature_rotation [of 28 "\<lparr>ENC_a0 = 0, ENC_b0 = 0, ENC_ab0 = 1, ENC_loop = 0,
      ENC_count = 10, ENC_countMin = 4, ENC_countMax = 30, ENC_countStep = 1\<rparr>" 2]
  by (simp add: at_detent_def hist_ok_def lnot_def pinRead_def PIN_ENC_A_def PIN_ENC_B_def
      c_eq_def word_sless_alt ENC_get_def)

section \<open>The controller\<close>

lemma sint_ucast8: "sint (ucast (b :: u8) :: i16) = uint b"
proof -
  have "uint b < 2 ^ 8" using uint_lt2p [of b] by simp
  then have h: "uint b < 2 ^ 15" by simp
  have l: "- (2 ^ 15) \<le> uint b" by (rule order_trans [of _ 0]) simp_all
  have "sint (ucast b :: i16) = signed_take_bit 15 (uint b)"
    by (simp add: signed_ucast_eq)
  also from l h have "\<dots> = uint b" by (rule signed_take_bit_int_eq_self)
  finally show ?thesis .
qed

lemma ENC_get_set_ucast:
  "ENC_get (ENC_set rmin rmax rstep (ucast (v :: u8)) rloop s) = ucast v"
proof -
  have lo: "- 16384 \<le> sint (ucast v :: i16)"
    unfolding sint_ucast8 by (rule order_trans [of _ 0]) simp_all
  have hi: "sint (ucast v :: i16) < 16384"
    unfolding sint_ucast8 using uint_lt2p [of v] by simp
  from lo hi have "signed_drop_bit 1 (push_bit 1 (ucast v :: i16)) = ucast v" by (rule half_double)
  then show ?thesis by (simp only: ENC_get_def ENC_set_def) simp
qed

lemma bit_NEO_on: "bit (NEO_on x) PIN_ENABLE"
  by (simp add: NEO_on_def PIN_ENABLE_def bit_or_iff)

lemma bit_NEO_off: "\<not> bit (NEO_off x) PIN_ENABLE"
  by (simp add: NEO_off_def PIN_ENABLE_def bit_and_iff bit_not_iff)

lemma press_from_OFF:
  "state d = 0 \<Longrightarrow> press d =
    d\<lparr>state := 1, DDRB := NEO_on (DDRB d),
      enc := ENC_set 2 15 1 (ucast (bright d)) 0 (enc d)\<rparr>"
  by (simp add: press_def Let_def)

lemma press_from_WHITE: "state d = 1 \<Longrightarrow> press d = d\<lparr>state := 2\<rparr>"
  by (simp add: press_def Let_def)

lemma press_from_ANIMATE:
  "state d = 2 \<Longrightarrow> press d = d\<lparr>state := 3, enc := ENC_set 0 48 1 (ucast (hue d)) 1 (enc d)\<rparr>"
  by (simp add: press_def Let_def)

lemma press_from_SOLID:
  "state d = 3 \<Longrightarrow> press d = d\<lparr>state := 0, DDRB := NEO_off (DDRB d)\<rparr>"
  by (simp add: press_def Let_def)

lemma state_cases:
  assumes "state d \<le> 3"
  shows "state d = 0 \<or> state d = 1 \<or> state d = 2 \<or> state d = 3"
proof -
  from assms have "unat (state d) \<le> 3" by (simp add: word_le_nat_alt)
  then have "unat (state d) = 0 \<or> unat (state d) = 1 \<or> unat (state d) = 2 \<or> unat (state d) = 3"
    by arith
  then show ?thesis by (simp add: word_unat_eq_iff)
qed

lemma handle_state_le:
  assumes "state d \<le> 3"
  shows "state (handle d e) \<le> 3"
proof (cases e)
  case Tick
  with assms show ?thesis by (simp add: tick_def Let_def)
next
  case (Edge p)
  with assms show ?thesis by simp
next
  case Press
  with state_cases [OF assms] show ?thesis
    by (auto simp: press_from_OFF press_from_WHITE press_from_ANIMATE press_from_SOLID)
qed

lemma run_state_le: "state d \<le> 3 \<Longrightarrow> state (run d es) \<le> 3"
proof (induction es arbitrary: d)
  case Nil
  then show ?case by (simp add: run_def)
next
  case (Cons e es)
  from Cons.IH [OF handle_state_le [OF Cons.prems]] show ?case by (simp add: run_def)
qed

text \<open>
  Claim C8. The state of a device that was powered on is always one of 0..3. A button
  press takes the state \<open>st\<close> to \<open>(st + 1) mod 4\<close>, so four presses from OFF lead
  back to OFF. Entering OFF (0) switches the LED supply off and changes nothing else;
  entering WHITE (1) switches it on and sets the encoder to the range 2..15, step 1, no
  wrap, at the current brightness; entering ANIMATE (2) changes the state only;
  entering SOLID (3) sets the encoder to the range 0..48, step 1, wrap, at the current
  hue.
\<close>

theorem button_press_transition:
  assumes "state d \<le> 3"
  shows
    "state (run (power_on p) es) \<le> 3 \<and>
     unat (state (press d)) = (unat (state d) + 1) mod 4 \<and>
     (state d = 0 \<longrightarrow> state (press (press (press (press d)))) = 0) \<and>
     (state d = 3 \<longrightarrow>
        press d = d\<lparr>state := 0, DDRB := NEO_off (DDRB d)\<rparr> \<and>
        \<not> bit (DDRB (press d)) PIN_ENABLE) \<and>
     (state d = 0 \<longrightarrow>
        press d = d\<lparr>state := 1, DDRB := NEO_on (DDRB d),
          enc := ENC_set 2 15 1 (ucast (bright d)) 0 (enc d)\<rparr> \<and>
        bit (DDRB (press d)) PIN_ENABLE \<and>
        signed_drop_bit 1 (ENC_countMin (enc (press d))) = 2 \<and>
        signed_drop_bit 1 (ENC_countMax (enc (press d))) = 15 \<and>
        ENC_countStep (enc (press d)) = 1 \<and> ENC_loop (enc (press d)) = 0 \<and>
        ENC_get (enc (press d)) = ucast (bright d)) \<and>
     (state d = 1 \<longrightarrow> press d = d\<lparr>state := 2\<rparr>) \<and>
     (state d = 2 \<longrightarrow>
        press d = d\<lparr>state := 3, enc := ENC_set 0 48 1 (ucast (hue d)) 1 (enc d)\<rparr> \<and>
        signed_drop_bit 1 (ENC_countMin (enc (press d))) = 0 \<and>
        signed_drop_bit 1 (ENC_countMax (enc (press d))) = 48 \<and>
        ENC_countStep (enc (press d)) = 1 \<and> ENC_loop (enc (press d)) = 1 \<and>
        ENC_get (enc (press d)) = ucast (hue d))"
proof -
  have adv: "unat (state (press d)) = (unat (state d) + 1) mod 4"
    using state_cases [OF assms]
    by (auto simp: press_from_OFF press_from_WHITE press_from_ANIMATE press_from_SOLID)
  have four: "state (press (press (press (press d)))) = 0" if "state d = 0"
    using that
    by (simp add: press_from_OFF press_from_WHITE press_from_ANIMATE press_from_SOLID)
  have off: "press d = d\<lparr>state := 0, DDRB := NEO_off (DDRB d)\<rparr> \<and>
      \<not> bit (DDRB (press d)) PIN_ENABLE" if "state d = 3"
    using that by (simp add: press_from_SOLID bit_NEO_off)
  have white: "press d = d\<lparr>state := 1, DDRB := NEO_on (DDRB d),
        enc := ENC_set 2 15 1 (ucast (bright d)) 0 (enc d)\<rparr> \<and>
      bit (DDRB (press d)) PIN_ENABLE \<and>
      signed_drop_bit 1 (ENC_countMin (enc (press d))) = 2 \<and>
      signed_drop_bit 1 (ENC_countMax (enc (press d))) = 15 \<and>
      ENC_countStep (enc (press d)) = 1 \<and> ENC_loop (enc (press d)) = 0 \<and>
      ENC_get (enc (press d)) = ucast (bright d)" if "state d = 0"
    using that by (simp add: press_from_OFF bit_NEO_on ENC_get_set_ucast) (simp add: ENC_set_def)
  have animate: "press d = d\<lparr>state := 2\<rparr>" if "state d = 1"
    using that by (rule press_from_WHITE)
  have solid: "press d = d\<lparr>state := 3, enc := ENC_set 0 48 1 (ucast (hue d)) 1 (enc d)\<rparr> \<and>
      signed_drop_bit 1 (ENC_countMin (enc (press d))) = 0 \<and>
      signed_drop_bit 1 (ENC_countMax (enc (press d))) = 48 \<and>
      ENC_countStep (enc (press d)) = 1 \<and> ENC_loop (enc (press d)) = 1 \<and>
      ENC_get (enc (press d)) = ucast (hue d)" if "state d = 2"
    using that by (simp add: press_from_ANIMATE ENC_get_set_ucast) (simp add: ENC_set_def)
  have "state (power_on p) \<le> 3" by (simp add: power_on_def)
  then have reach: "state (run (power_on p) es) \<le> 3" by (rule run_state_le)
  from reach adv four off white animate solid show ?thesis by blast
qed

lemma handle_ANIMATE:
  assumes "state d = 2" "e \<noteq> Press"
  shows "state (handle d e) = 2 \<and> bright (handle d e) = bright d \<and> hue (handle d e) = hue d \<and>
    DDRB (handle d e) = DDRB d \<and> (e = Tick \<longrightarrow> enc (handle d e) = enc d)"
  using assms by (cases e) (simp_all add: tick_def Let_def)

lemma run_ANIMATE:
  "state d = 2 \<Longrightarrow> Press \<notin> set es \<Longrightarrow>
    state (run d es) = 2 \<and> bright (run d es) = bright d \<and> hue (run d es) = hue d \<and>
    DDRB (run d es) = DDRB d \<and> ((\<forall>e \<in> set es. e = Tick) \<longrightarrow> enc (run d es) = enc d)"
proof (induction es arbitrary: d)
  case Nil
  then show ?case by (simp add: run_def)
next
  case (Cons e es)
  from Cons.prems have e: "e \<noteq> Press" and es: "Press \<notin> set es" by auto
  note h = handle_ANIMATE [OF Cons.prems(1) e]
  from h have "state (handle d e) = 2" by simp
  from Cons.IH [OF this es] h show ?case by (auto simp add: run_def)
qed


lemma run_append: "run d (xs @ ys) = run (run d xs) ys"
  by (simp add: run_def)

lemma run_Cons: "run d (e # es) = run (handle d e) es"
  by (simp add: run_def)

text \<open>
  Claim C9. In ANIMATE, any sequence of polling passes and encoder interrupts leaves
  the state, the brightness, the hue and the LED supply as they are (passes alone leave
  the encoder as it is, too): only the animation phase, the delay counter, the
  encoder and the pixel line change. From WHITE, a press, such a stay in ANIMATE and
  a second press reach SOLID with the brightness and the hue unchanged, the encoder
  set to the hue, and the next pass reads the same hue back. In any state, the
  brightness changes only in a pass in WHITE and the hue only in a pass in SOLID.
\<close>

lemma handle_frame:
  "(e \<noteq> Tick \<or> state d \<noteq> 1 \<longrightarrow> bright (handle d e) = bright d) \<and>
   (e \<noteq> Tick \<or> state d \<noteq> 3 \<longrightarrow> hue (handle d e) = hue d)"
  by (cases e) (simp_all add: tick_def press_def Let_def)

theorem animate_keeps_settings:
  assumes "Press \<notin> set es"
  shows
    "(e \<noteq> Tick \<or> state d \<noteq> 1 \<longrightarrow> bright (handle d e) = bright d) \<and>
     (e \<noteq> Tick \<or> state d \<noteq> 3 \<longrightarrow> hue (handle d e) = hue d) \<and>
     (state d = 2 \<longrightarrow>
        state (run d es) = 2 \<and> bright (run d es) = bright d \<and> hue (run d es) = hue d \<and>
        DDRB (run d es) = DDRB d \<and>
        ((\<forall>e \<in> set es. e = Tick) \<longrightarrow> enc (run d es) = enc d)) \<and>
     (state d = 1 \<longrightarrow>
        state (run d (Press # es @ [Press])) = 3 \<and>
        bright (run d (Press # es @ [Press])) = bright d \<and>
        hue (run d (Press # es @ [Press])) = hue d \<and>
        ENC_get (enc (run d (Press # es @ [Press]))) = ucast (hue d) \<and>
        hue (tick (run d (Press # es @ [Press]))) = hue d \<and>
        bright (tick (run d (Press # es @ [Press]))) = bright d)"
proof -
  have a: "state (run d es) = 2 \<and> bright (run d es) = bright d \<and> hue (run d es) = hue d \<and>
      DDRB (run d es) = DDRB d \<and> ((\<forall>e \<in> set es. e = Tick) \<longrightarrow> enc (run d es) = enc d)"
    if "state d = 2"
    using that assms by (rule run_ANIMATE)
  have b: "state (run d (Press # es @ [Press])) = 3 \<and>
      bright (run d (Press # es @ [Press])) = bright d \<and>
      hue (run d (Press # es @ [Press])) = hue d \<and>
      ENC_get (enc (run d (Press # es @ [Press]))) = ucast (hue d) \<and>
      hue (tick (run d (Press # es @ [Press]))) = hue d \<and>
      bright (tick (run d (Press # es @ [Press]))) = bright d"
    if w: "state d = 1"
  proof -
    let ?d1 = "d\<lparr>state := 2\<rparr>"
    have s1: "state ?d1 = 2" by simp
    note r = run_ANIMATE [OF s1 assms]
    have "run d (Press # es @ [Press]) = press (run ?d1 es)"
      by (simp add: run_Cons run_append press_from_WHITE [OF w]) (simp add: run_def)
    moreover from r have "state (run ?d1 es) = 2" by simp
    ultimately have "run d (Press # es @ [Press]) =
        (run ?d1 es)\<lparr>state := 3,
          enc := ENC_set 0 48 1 (ucast (hue (run ?d1 es))) 1 (enc (run ?d1 es))\<rparr>"
      by (simp add: press_from_ANIMATE)
    with r show ?thesis by (simp add: ENC_get_set_ucast tick_def Let_def ucast_down_ucast_id is_down)
  qed
  from handle_frame [of e d] a b show ?thesis by blast
qed

text \<open>
  Claim C10. A hue of 48 or more has phase 3 or more: the switch of \<open>NEO_writeHue\<close>
  takes the default branch and nothing is sent, for every brightness. A pass in SOLID
  that reads such a value from the encoder stores it as the hue and leaves the pixel
  line as it is. The value 48 is reached: three presses after power-on enter SOLID with
  the range 0..48 at hue 0, one step down wraps to the maximum, \<open>ENC_get\<close> returns
  48, and the next pass sends nothing.
\<close>

theorem solid_hue_48_sends_nothing:
  "(48 \<le> h \<longrightarrow> NEO_hueColor h b = None \<and> NEO_writeHue h b = []) \<and>
   (state d = 3 \<and> 48 \<le> (ucast (ENC_get (enc d)) :: u8) \<longrightarrow>
      hue (tick d) = ucast (ENC_get (enc d)) \<and> line (tick d) = line d) \<and>
   state (run (power_on 28) [Press, Press, Press]) = 3 \<and>
   signed_drop_bit 1 (ENC_countMax (enc (run (power_on 28) [Press, Press, Press]))) = 48 \<and>
   ENC_get (enc (run (power_on 28) [Press, Press, Press, Edge 4])) = 48 \<and>
   hue (run (power_on 28) [Press, Press, Press, Edge 4, Tick]) = 48 \<and>
   line (run (power_on 28) [Press, Press, Press, Edge 4, Tick]) =
     line (run (power_on 28) [Press, Press, Press, Edge 4])"
proof -
  have n: "NEO_hueColor h b = None \<and> NEO_writeHue h b = []" if "48 \<le> h"
    using that by (simp add: NEO_writeHue_none NEO_hueColor_none)
  have n48: "NEO_writeHue 48 x = []" for x by (rule NEO_writeHue_none) simp
  have t: "hue (tick d) = ucast (ENC_get (enc d)) \<and> line (tick d) = line d"
    if "state d = 3" "48 \<le> (ucast (ENC_get (enc d)) :: u8)"
    using that by (simp add: tick_def Let_def NEO_writeHue_none)
  let ?d3 = "run (power_on 28) [Press, Press, Press]"
  have d3: "?d3 = \<lparr>state = 3, hue = 0, bright = 5, anim = 0, counter = 8,
      enc = \<lparr>ENC_a0 = 0, ENC_b0 = 0, ENC_ab0 = 1, ENC_loop = 1, ENC_count = 0,
         ENC_countMin = 0, ENC_countMax = 96, ENC_countStep = 1\<rparr>,
      DDRB = 3, line = []\<rparr>"
    by (simp add: run_def power_on_def press_def Let_def ENC_init_def ENC_set_def NEO_on_def
        lnot_def pinRead_def c_eq_def PIN_ENC_A_def PIN_ENC_B_def PIN_ENABLE_def PIN_NEO_def)
  let ?d4 = "run (power_on 28) [Press, Press, Press, Edge 4]"
  have "?d4 = handle ?d3 (Edge 4)" by (simp add: run_def)
  then have d4: "?d4 = \<lparr>state = 3, hue = 0, bright = 5, anim = 0, counter = 8,
      enc = \<lparr>ENC_a0 = 1, ENC_b0 = 1, ENC_ab0 = 1, ENC_loop = 1, ENC_count = 96,
         ENC_countMin = 0, ENC_countMax = 96, ENC_countStep = 1\<rparr>,
      DDRB = 3, line = []\<rparr>"
    unfolding d3
    by (simp add: PCINT0_def Let_def ENC_delta_def ENC_limit_def lnot_def pinRead_def c_eq_def
        PIN_ENC_A_def PIN_ENC_B_def word_sless_alt)
  have g: "ENC_get (enc ?d4) = 48" unfolding d4 by (simp add: ENC_get_def)
  have s4: "state ?d4 = 3" unfolding d4 by simp
  have "run (power_on 28) [Press, Press, Press, Edge 4, Tick] = tick ?d4" by (simp add: run_def)
  then have t4: "hue (run (power_on 28) [Press, Press, Press, Edge 4, Tick]) = 48 \<and>
      line (run (power_on 28) [Press, Press, Press, Edge 4, Tick]) = line ?d4"
    using s4 g by (simp add: tick_def Let_def n48)
  have m: "state ?d3 = 3 \<and> signed_drop_bit 1 (ENC_countMax (enc ?d3)) = 48"
    unfolding d3 by simp
  from n t m g t4 show ?thesis by blast
qed


theorem button_press_transition_witness:
  "state (power_on 28) \<le> 3 \<and> state (press (power_on 28)) = 1 \<and>
   bit (DDRB (press (power_on 28))) PIN_ENABLE \<and>
   ENC_get (enc (press (power_on 28))) = 5 \<and>
   ENC_countMin (enc (press (power_on 28))) = 4 \<and>
   ENC_countMax (enc (press (power_on 28))) = 30 \<and>
   state (press (press (press (press (power_on 28))))) = 0"
  using button_press_transition [of "power_on 28"]
  by (simp add: power_on_def press_def ENC_set_def ENC_init_def ENC_get_def Let_def NEO_on_def
      NEO_off_def PIN_ENABLE_def PIN_NEO_def)

theorem animate_keeps_settings_witness:
  "Press \<notin> set [Tick, Edge 20, Tick] \<and>
   bright (run \<lparr>state = 2, hue = 7, bright = 9, anim = 0, counter = 1,
      enc = \<lparr>ENC_a0 = 0, ENC_b0 = 0, ENC_ab0 = 1, ENC_loop = 0, ENC_count = 18,
        ENC_countMin = 4, ENC_countMax = 30, ENC_countStep = 1\<rparr>,
      DDRB = 3, line = []\<rparr> [Tick, Edge 20, Tick]) = 9 \<and>
   hue (run \<lparr>state = 2, hue = 7, bright = 9, anim = 0, counter = 1,
      enc = \<lparr>ENC_a0 = 0, ENC_b0 = 0, ENC_ab0 = 1, ENC_loop = 0, ENC_count = 18,
        ENC_countMin = 4, ENC_countMax = 30, ENC_countStep = 1\<rparr>,
      DDRB = 3, line = []\<rparr> [Tick, Edge 20, Tick]) = 7 \<and>
   hue (run \<lparr>state = 1, hue = 7, bright = 9, anim = 0, counter = 1,
      enc = \<lparr>ENC_a0 = 0, ENC_b0 = 0, ENC_ab0 = 1, ENC_loop = 0, ENC_count = 18,
        ENC_countMin = 4, ENC_countMax = 30, ENC_countStep = 1\<rparr>,
      DDRB = 3, line = []\<rparr> (Press # [Tick, Edge 20, Tick] @ [Press])) = 7"
  using
    animate_keeps_settings [where es = "[Tick, Edge 20, Tick]" and e = Tick and d = "\<lparr>state = 2, hue = 7, bright = 9,
      anim = 0, counter = 1, enc = \<lparr>ENC_a0 = 0, ENC_b0 = 0, ENC_ab0 = 1, ENC_loop = 0,
      ENC_count = 18, ENC_countMin = 4, ENC_countMax = 30, ENC_countStep = 1\<rparr>,
      DDRB = 3, line = []\<rparr>"]
    animate_keeps_settings [where es = "[Tick, Edge 20, Tick]" and e = Press and d = "\<lparr>state = 1, hue = 7, bright = 9,
      anim = 0, counter = 1, enc = \<lparr>ENC_a0 = 0, ENC_b0 = 0, ENC_ab0 = 1, ENC_loop = 0,
      ENC_count = 18, ENC_countMin = 4, ENC_countMax = 30, ENC_countStep = 1\<rparr>,
      DDRB = 3, line = []\<rparr>"]
  by simp

theorem solid_hue_48_sends_nothing_witness:
  "(48 :: u8) \<le> 48 \<and> NEO_writeHue 48 5 = [] \<and>
   line (tick \<lparr>state = 3, hue = 0, bright = 5, anim = 0, counter = 8,
      enc = \<lparr>ENC_a0 = 1, ENC_b0 = 1, ENC_ab0 = 1, ENC_loop = 1, ENC_count = 96,
         ENC_countMin = 0, ENC_countMax = 96, ENC_countStep = 1\<rparr>,
      DDRB = 3, line = [True]\<rparr>) = [True] \<and>
   hue (tick \<lparr>state = 3, hue = 0, bright = 5, anim = 0, counter = 8,
      enc = \<lparr>ENC_a0 = 1, ENC_b0 = 1, ENC_ab0 = 1, ENC_loop = 1, ENC_count = 96,
         ENC_countMin = 0, ENC_countMax = 96, ENC_countStep = 1\<rparr>,
      DDRB = 3, line = [True]\<rparr>) = 48"
  using solid_hue_48_sends_nothing [of 48 5 "\<lparr>state = 3, hue = 0, bright = 5, anim = 0,
      counter = 8, enc = \<lparr>ENC_a0 = 1, ENC_b0 = 1, ENC_ab0 = 1, ENC_loop = 1, ENC_count = 96,
         ENC_countMin = 0, ENC_countMax = 96, ENC_countStep = 1\<rparr>,
      DDRB = 3, line = [True]\<rparr>"]
  by (simp add: ENC_get_def)

end
